theory Spec2Isabelle
  imports Main "HOL-Library.Multiset"
begin

section \<open>Execution units and the kernel context\<close>

text \<open>
  Modelled from the spec: the Thread class (threads/thread.h is not among the sources).
  The scheduler only reads and writes the attributes below: the priority value, the
  status, the consumed-time counter (\<open>getBurstTime\<close>), the estimated total time
  (\<open>getApproxBurstTime\<close>) and the optional address-space handle (\<open>space\<close>).
  Times and priorities are C++ numbers whose declarations are absent; they are taken as
  unbounded integers.
\<close>

datatype ThreadStatus = READY | RUNNING | BLOCKED | FINISHED

record thread =
  priority :: int
  status :: ThreadStatus
  burstTime :: int
  approxBurstTime :: int
  space :: "nat option"

text \<open>A \<open>Thread *\<close> is an address; the heap maps addresses to thread objects.\<close>

type_synonym tid = nat
type_synonym heap = "tid \<Rightarrow> thread"

datatype IntStatus = IntOff | IntOn

text \<open>
  Calls to the external collaborators whose effect lies outside the scheduler's state
  (register and address-space save/restore, the stack check, the start-time marker, the
  context switch, the release of a thread) are recorded, in order, in a trace.
\<close>

datatype call =
    SaveUserState tid
  | SaveState tid
  | CheckOverflow tid
  | SetStartTime tid
  | Switch tid tid
  | Delete tid
  | RestoreUserState tid
  | RestoreState tid

text \<open>
  The scheduler object (\<open>L1\<close>, \<open>L2\<close>, \<open>L3\<close>, \<open>toBeDestroyed\<close>) together with the part
  of the kernel context it uses: \<open>kernel->currentThread\<close>, the interrupt level
  \<open>kernel->interrupt->getLevel()\<close>, and the heap of thread objects.
\<close>

record scheduler =
  L1 :: "tid list"
  L2 :: "tid list"
  L3 :: "tid list"
  toBeDestroyed :: "tid option"
  currentThread :: tid
  level :: IntStatus
  threads :: heap
  calls :: "call list"

text \<open>
  A failed \<open>ASSERT\<close> and \<open>ASSERTNOTREACHED\<close> abort the kernel; the outcome keeps the
  state at the point of failure. \<open>NeverResumed\<close> is a dispatch whose context switch
  is never switched back to.
\<close>

datatype error = AssertionFailed | NotReached

datatype 'a outcome = Done 'a | Abort error scheduler | NeverResumed scheduler

definition emit :: "call list \<Rightarrow> scheduler \<Rightarrow> scheduler" where
  "emit cs s = s\<lparr>calls := calls s @ cs\<rparr>"

definition setStatus :: "tid \<Rightarrow> ThreadStatus \<Rightarrow> scheduler \<Rightarrow> scheduler" where
  "setStatus t st s = s\<lparr>threads := (threads s)(t := (threads s t)\<lparr>status := st\<rparr>)\<rparr>"

section \<open>Lists\<close>

text \<open>
  Modelled from the spec: \<open>SortedList<T>::Insert\<close> and \<open>List<T>::Append\<close>
  (lib/list.h is not among the sources). A sorted tier is kept ascending by its
  comparison; a tie is broken by insertion order, the unit inserted earlier staying in
  front: the new item goes before the first resident that compares strictly greater.
  \<open>RemoveFront\<close> and \<open>IsEmpty\<close> are the head/tail split of the list.
\<close>

fun Insert :: "('a \<Rightarrow> 'a \<Rightarrow> int) \<Rightarrow> 'a \<Rightarrow> 'a list \<Rightarrow> 'a list" where
  "Insert compare item [] = [item]"
| "Insert compare item (x # xs) =
     (if compare item x < 0 then item # x # xs else x # Insert compare item xs)"

definition Append :: "'a \<Rightarrow> 'a list \<Rightarrow> 'a list" where
  "Append item xs = xs @ [item]"

section \<open>Ordering policies\<close>

definition remaining :: "heap \<Rightarrow> tid \<Rightarrow> int" where
  "remaining h a = approxBurstTime (h a) - burstTime (h a)"

definition SJFCompare :: "heap \<Rightarrow> tid \<Rightarrow> tid \<Rightarrow> int" where
  "SJFCompare h a b =
     (if approxBurstTime (h a) - burstTime (h a) = approxBurstTime (h b) - burstTime (h b)
      then 0
      else if approxBurstTime (h a) - burstTime (h a) > approxBurstTime (h b) - burstTime (h b)
      then 1 else - 1)"

definition PriorityCompare :: "heap \<Rightarrow> tid \<Rightarrow> tid \<Rightarrow> int" where
  "PriorityCompare h a b =
     (if priority (h a) = priority (h b) then 0
      else if priority (h a) > priority (h b) then 1 else - 1)"

definition FIFOCompare :: "heap \<Rightarrow> tid \<Rightarrow> tid \<Rightarrow> int" where
  "FIFOCompare h a b = 1"

section \<open>The scheduler\<close>

text \<open>
  The functions of \<open>threads/scheduler.cc\<close>, statement by statement. The \<open>DEBUG\<close> lines
  and the \<open>cout\<close> message write to the trace sink only and are left out.
\<close>

definition Scheduler :: "tid \<Rightarrow> IntStatus \<Rightarrow> heap \<Rightarrow> scheduler" where
  "Scheduler cur lvl h =
     \<lparr>L1 = [], L2 = [], L3 = [], toBeDestroyed = None,
      currentThread = cur, level = lvl, threads = h, calls = []\<rparr>"

definition ReadyToRun :: "scheduler \<Rightarrow> tid \<Rightarrow> scheduler outcome" where
  "ReadyToRun s thread =
     (if level s \<noteq> IntOff then Abort AssertionFailed s
      else
        let s1 = setStatus thread READY s;
            p = priority (threads s1 thread)
        in if p \<ge> 100 \<and> p \<le> 149
             then Done (s1\<lparr>L1 := Insert (SJFCompare (threads s1)) thread (L1 s1)\<rparr>)
           else if p \<ge> 50 \<and> p \<le> 99
             then Done (s1\<lparr>L2 := Insert (PriorityCompare (threads s1)) thread (L2 s1)\<rparr>)
           else if p \<ge> 0 \<and> p \<le> 49
             then Done (s1\<lparr>L3 := Append thread (L3 s1)\<rparr>)
           else Abort NotReached s1)"

definition FindNextToRun :: "scheduler \<Rightarrow> (tid option \<times> scheduler) outcome" where
  "FindNextToRun s =
     (if level s \<noteq> IntOff then Abort AssertionFailed s
      else case L1 s of
        thread # rest \<Rightarrow> Done (Some thread, s\<lparr>L1 := rest\<rparr>)
      | [] \<Rightarrow>
        (case L2 s of
          thread # rest \<Rightarrow> Done (Some thread, s\<lparr>L2 := rest\<rparr>)
        | [] \<Rightarrow>
          (case L3 s of
            thread # rest \<Rightarrow> Done (Some thread, s\<lparr>L3 := rest\<rparr>)
          | [] \<Rightarrow> Done (None, s))))"

definition CheckToBeDestroyed :: "scheduler \<Rightarrow> scheduler" where
  "CheckToBeDestroyed s =
     (case toBeDestroyed s of
        None \<Rightarrow> s
      | Some t \<Rightarrow> (emit [Delete t] s)\<lparr>toBeDestroyed := None\<rparr>)"

text \<open>
  \<open>Run\<close> up to and including the call of \<open>SWITCH\<close>: the statements that execute on the
  old thread's stack before the processor is handed over.
\<close>

definition Run_to_SWITCH :: "scheduler \<Rightarrow> tid \<Rightarrow> bool \<Rightarrow> scheduler outcome" where
  "Run_to_SWITCH s nextThread finishing =
     (let oldThread = currentThread s in
      if level s \<noteq> IntOff then Abort AssertionFailed s
      else if finishing \<and> toBeDestroyed s \<noteq> None then Abort AssertionFailed s
      else
        let s1 = (if finishing then s\<lparr>toBeDestroyed := Some oldThread\<rparr> else s);
            s2 = (if space (threads s1 oldThread) \<noteq> None
                  then emit [SaveUserState oldThread, SaveState oldThread] s1 else s1);
            s3 = emit [CheckOverflow oldThread] s2;
            s4 = s3\<lparr>currentThread := nextThread\<rparr>;
            s5 = setStatus nextThread RUNNING s4;
            s6 = emit [SetStartTime nextThread] s5
        in Done (emit [Switch oldThread nextThread] s6))"

text \<open>
  \<open>Run\<close> from the return of \<open>SWITCH\<close>: the statements that execute when some later
  dispatch has switched back to \<open>oldThread\<close>.
\<close>

definition Run_from_SWITCH :: "scheduler \<Rightarrow> tid \<Rightarrow> scheduler outcome" where
  "Run_from_SWITCH s oldThread =
     (if level s \<noteq> IntOff then Abort AssertionFailed s
      else
        let s1 = CheckToBeDestroyed s
        in Done (if space (threads s1 oldThread) \<noteq> None
                 then emit [RestoreUserState oldThread, RestoreState oldThread] s1 else s1))"

text \<open>
  The whole of \<open>Run\<close>. What the other threads do to the state between the switch and
  the resumption is the parameter \<open>others\<close>; \<open>None\<close> means that this invocation is
  never resumed (as for a finishing thread).
\<close>

definition Run ::
  "(scheduler \<Rightarrow> scheduler option) \<Rightarrow> scheduler \<Rightarrow> tid \<Rightarrow> bool \<Rightarrow> scheduler outcome" where
  "Run others s nextThread finishing =
     (case Run_to_SWITCH s nextThread finishing of
        Abort e s' \<Rightarrow> Abort e s'
      | NeverResumed s' \<Rightarrow> NeverResumed s'
      | Done s1 \<Rightarrow>
          (case others s1 of
             None \<Rightarrow> NeverResumed s1
           | Some s2 \<Rightarrow> Run_from_SWITCH s2 (currentThread s)))"

definition checkPreemptive :: "scheduler \<Rightarrow> bool \<times> scheduler" where
  "checkPreemptive s =
     (case L1 s of
        [] \<Rightarrow> (False, s)
      | first # rest \<Rightarrow>
          let s1 = s\<lparr>L1 := Insert (SJFCompare (threads s)) first rest\<rparr>;
              now = currentThread s1
          in (approxBurstTime (threads s1 first) < approxBurstTime (threads s1 now), s1))"

text \<open>
  The three loops of \<open>aging\<close>. \<open>Thread::aging\<close> is defined by the unit (threads/thread.cc
  is not among the sources); it is the parameter \<open>ag\<close>, a change of the thread object.
\<close>

fun drainL1 :: "(thread \<Rightarrow> thread) \<Rightarrow> tid list \<Rightarrow> heap \<Rightarrow> tid list \<Rightarrow> heap \<times> tid list" where
  "drainL1 ag [] h newL1 = (h, newL1)"
| "drainL1 ag (t # l1) h newL1 =
     (let h' = h(t := ag (h t))
      in drainL1 ag l1 h' (Insert (SJFCompare h') t newL1))"

fun drainL2 ::
  "(thread \<Rightarrow> thread) \<Rightarrow> tid list \<Rightarrow> heap \<Rightarrow> tid list \<Rightarrow> tid list
     \<Rightarrow> heap \<times> tid list \<times> tid list" where
  "drainL2 ag [] h newL1 newL2 = (h, newL1, newL2)"
| "drainL2 ag (t # l2) h newL1 newL2 =
     (let h' = h(t := ag (h t))
      in if priority (h' t) \<ge> 100
         then drainL2 ag l2 h' (Insert (SJFCompare h') t newL1) newL2
         else drainL2 ag l2 h' newL1 (Insert (PriorityCompare h') t newL2))"

fun drainL3 ::
  "(thread \<Rightarrow> thread) \<Rightarrow> tid list \<Rightarrow> heap \<Rightarrow> tid list \<Rightarrow> tid list
     \<Rightarrow> heap \<times> tid list \<times> tid list" where
  "drainL3 ag [] h newL2 newL3 = (h, newL2, newL3)"
| "drainL3 ag (t # l3) h newL2 newL3 =
     (let h' = h(t := ag (h t))
      in if priority (h' t) \<ge> 50
         then drainL3 ag l3 h' (Insert (PriorityCompare h') t newL2) newL3
         else drainL3 ag l3 h' newL2 (Append t newL3))"

definition aging :: "(thread \<Rightarrow> thread) \<Rightarrow> scheduler \<Rightarrow> scheduler" where
  "aging ag s =
     (case drainL1 ag (L1 s) (threads s) [] of (h1, newL1) \<Rightarrow>
      case drainL2 ag (L2 s) h1 newL1 [] of (h2, newL1', newL2) \<Rightarrow>
      case drainL3 ag (L3 s) h2 newL2 [] of (h3, newL2', newL3) \<Rightarrow>
        s\<lparr>L1 := newL1', L2 := newL2', L3 := newL3, threads := h3\<rparr>)"

section \<open>Notions used in the statements\<close>

text \<open>
  \<open>precedes a b xs\<close>: \<open>a\<close> stands in \<open>xs\<close> in front of an occurrence of \<open>b\<close>, so that
  repeated \<open>RemoveFront\<close> takes \<open>a\<close> out first.
\<close>

fun precedes :: "'a \<Rightarrow> 'a \<Rightarrow> 'a list \<Rightarrow> bool" where
  "precedes a b [] = False"
| "precedes a b (x # xs) = ((x = a \<and> b \<in> set xs) \<or> precedes a b xs)"

text \<open>A sequence of admissions, stopping at the first that aborts.\<close>

fun admit_all :: "scheduler \<Rightarrow> tid list \<Rightarrow> scheduler outcome" where
  "admit_all s [] = Done s"
| "admit_all s (t # ts) =
     (case ReadyToRun s t of
        Done s' \<Rightarrow> admit_all s' ts
      | Abort e s' \<Rightarrow> Abort e s'
      | NeverResumed s' \<Rightarrow> NeverResumed s')"

section \<open>Example states\<close>

text \<open>
  Concrete heaps and scheduler states on which the statements below are instantiated.
  \<open>demo_heap\<close> holds the two units of the first scenario (priority 120, estimate 10,
  consumed 2; priority 125, estimate 5, consumed 1) and a running unit of priority 200.
\<close>

definition idle_thread :: thread where
  "idle_thread =
     \<lparr>priority = 0, status = BLOCKED, burstTime = 0, approxBurstTime = 0, space = None\<rparr>"

definition demo_heap :: heap where
  "demo_heap = (\<lambda>_. idle_thread)
     (1 := \<lparr>priority = 120, status = BLOCKED, burstTime = 2, approxBurstTime = 10, space = None\<rparr>,
      2 := \<lparr>priority = 125, status = BLOCKED, burstTime = 1, approxBurstTime = 5, space = None\<rparr>,
      3 := \<lparr>priority = 200, status = RUNNING, burstTime = 0, approxBurstTime = 0, space = Some 0\<rparr>,
      4 := \<lparr>priority = 60, status = READY, burstTime = 0, approxBurstTime = 3, space = None\<rparr>,
      5 := \<lparr>priority = 10, status = READY, burstTime = 0, approxBurstTime = 3, space = None\<rparr>)"

definition demo :: scheduler where
  "demo = Scheduler 3 IntOff demo_heap"

definition demo_ready :: scheduler where
  "demo_ready = demo\<lparr>L1 := [2, 1], L2 := [4], L3 := [5]\<rparr>"

definition demo_staged :: scheduler where
  "demo_staged = demo\<lparr>toBeDestroyed := Some 7\<rparr>"

definition demo_switched :: scheduler where
  "demo_switched = demo_ready
     \<lparr>currentThread := 1,
      threads := demo_heap(1 := (demo_heap 1)\<lparr>status := RUNNING\<rparr>),
      calls := [SaveUserState 3, SaveState 3, CheckOverflow 3, SetStartTime 1, Switch 3 1]\<rparr>"

definition demo_resumed :: scheduler where
  "demo_resumed = demo_switched
     \<lparr>calls := calls demo_switched @ [RestoreUserState 3, RestoreState 3]\<rparr>"

definition demo_rejected :: scheduler where
  "demo_rejected = demo\<lparr>threads := demo_heap(3 := (demo_heap 3)\<lparr>status := READY\<rparr>)\<rparr>"

definition sjf_heap :: heap where
  "sjf_heap = (\<lambda>_. idle_thread)
     (1 := \<lparr>priority = 120, status = READY, burstTime = 8, approxBurstTime = 10, space = None\<rparr>,
      2 := \<lparr>priority = 120, status = RUNNING, burstTime = 0, approxBurstTime = 5, space = None\<rparr>)"

definition sjf_state :: scheduler where
  "sjf_state = (Scheduler 2 IntOff sjf_heap)\<lparr>L1 := [1]\<rparr>"

definition tie_heap :: heap where
  "tie_heap = (\<lambda>_. idle_thread)
     (1 := \<lparr>priority = 120, status = READY, burstTime = 0, approxBurstTime = 4, space = None\<rparr>,
      2 := \<lparr>priority = 130, status = READY, burstTime = 0, approxBurstTime = 4, space = None\<rparr>,
      3 := \<lparr>priority = 140, status = RUNNING, burstTime = 0, approxBurstTime = 9, space = None\<rparr>,
      4 := \<lparr>priority = 60, status = BLOCKED, burstTime = 0, approxBurstTime = 7, space = None\<rparr>,
      5 := \<lparr>priority = 60, status = BLOCKED, burstTime = 3, approxBurstTime = 5, space = None\<rparr>,
      6 := \<lparr>priority = 55, status = BLOCKED, burstTime = 0, approxBurstTime = 1, space = None\<rparr>)"

definition tie_state :: scheduler where
  "tie_state = (Scheduler 3 IntOff tie_heap)\<lparr>L1 := [1, 2]\<rparr>"

text \<open>The fresh scheduler after the admission of threads 1 and 2, in this order.\<close>

definition tie_admitted :: scheduler where
  "tie_admitted =
     (Scheduler 3 IntOff
        (tie_heap(1 := (tie_heap 1)\<lparr>status := READY\<rparr>, 2 := (tie_heap 2)\<lparr>status := READY\<rparr>)))
     \<lparr>L1 := [1, 2]\<rparr>"

definition age_heap :: heap where
  "age_heap = (\<lambda>_. idle_thread)
     (1 := \<lparr>priority = 120, status = READY, burstTime = 0, approxBurstTime = 6, space = None\<rparr>,
      4 := \<lparr>priority = 95, status = READY, burstTime = 1, approxBurstTime = 3, space = None\<rparr>,
      5 := \<lparr>priority = 60, status = READY, burstTime = 0, approxBurstTime = 7, space = None\<rparr>,
      6 := \<lparr>priority = 48, status = READY, burstTime = 0, approxBurstTime = 2, space = None\<rparr>,
      7 := \<lparr>priority = 10, status = READY, burstTime = 0, approxBurstTime = 2, space = None\<rparr>)"

definition age_state :: scheduler where
  "age_state = (Scheduler 3 IntOff age_heap)\<lparr>L1 := [1], L2 := [5, 4], L3 := [6, 7]\<rparr>"

text \<open>An aging mutation that raises the priority by \<open>k\<close>, with no upper limit.\<close>

definition raise_by :: "int \<Rightarrow> thread \<Rightarrow> thread" where
  "raise_by k t = t\<lparr>priority := priority t + k\<rparr>"

section \<open>Basic facts\<close>

lemma length_Insert [simp]: "length (Insert c x xs) = Suc (length xs)"
  by (induction xs) auto

lemma Insert_neq [simp]: "Insert c x xs \<noteq> xs" "xs \<noteq> Insert c x xs"
  using length_Insert [of c x xs] by (metis n_not_Suc_n)+

lemma set_Insert [simp]: "set (Insert c x xs) = insert x (set xs)"
  by (induction xs) auto

lemma mset_Insert [simp]: "mset (Insert c x xs) = add_mset x (mset xs)"
  by (induction xs) auto

lemma emit_fields [simp]:
  "L1 (emit cs s) = L1 s" "L2 (emit cs s) = L2 s" "L3 (emit cs s) = L3 s"
  "toBeDestroyed (emit cs s) = toBeDestroyed s" "currentThread (emit cs s) = currentThread s"
  "level (emit cs s) = level s" "threads (emit cs s) = threads s"
  "calls (emit cs s) = calls s @ cs"
  by (simp_all add: emit_def)

lemma setStatus_fields [simp]:
  "L1 (setStatus t st s) = L1 s" "L2 (setStatus t st s) = L2 s" "L3 (setStatus t st s) = L3 s"
  "toBeDestroyed (setStatus t st s) = toBeDestroyed s"
  "currentThread (setStatus t st s) = currentThread s"
  "level (setStatus t st s) = level s" "calls (setStatus t st s) = calls s"
  "threads (setStatus t st s) = (threads s)(t := (threads s t)\<lparr>status := st\<rparr>)"
  by (simp_all add: setStatus_def)

lemma Run_to_SWITCH_cases:
  "Run_to_SWITCH s n f = Abort AssertionFailed s \<or>
   (\<exists>s'. Run_to_SWITCH s n f = Done s' \<and> level s = IntOff \<and> (f \<longrightarrow> toBeDestroyed s = None) \<and>
         L1 s' = L1 s \<and> L2 s' = L2 s \<and> L3 s' = L3 s \<and> level s' = level s \<and>
         toBeDestroyed s' = (if f then Some (currentThread s) else toBeDestroyed s))"
  by (simp add: Run_to_SWITCH_def Let_def)

lemma Run_to_SWITCH_Abort_iff:
  "(Run_to_SWITCH s n f = Abort e s') =
   (e = AssertionFailed \<and> s' = s \<and> (level s \<noteq> IntOff \<or> (f \<and> toBeDestroyed s \<noteq> None)))"
  by (auto simp add: Run_to_SWITCH_def Let_def)

lemma CheckToBeDestroyed_fields [simp]:
  "L1 (CheckToBeDestroyed s) = L1 s" "L2 (CheckToBeDestroyed s) = L2 s"
  "L3 (CheckToBeDestroyed s) = L3 s" "toBeDestroyed (CheckToBeDestroyed s) = None"
  "level (CheckToBeDestroyed s) = level s" "threads (CheckToBeDestroyed s) = threads s"
  by (simp_all add: CheckToBeDestroyed_def split: option.split)

lemma CheckToBeDestroyed_empty: "toBeDestroyed s = None \<Longrightarrow> CheckToBeDestroyed s = s"
  by (simp add: CheckToBeDestroyed_def)

lemma Run_from_SWITCH_cases:
  "Run_from_SWITCH s old = Abort AssertionFailed s \<or>
   (\<exists>s'. Run_from_SWITCH s old = Done s' \<and> level s = IntOff \<and>
         L1 s' = L1 s \<and> L2 s' = L2 s \<and> L3 s' = L3 s \<and> toBeDestroyed s' = None)"
  by (simp add: Run_from_SWITCH_def Let_def)

lemma demo_heap_3:
  "demo_heap 3 =
     \<lparr>priority = 200, status = RUNNING, burstTime = 0, approxBurstTime = 0, space = Some 0\<rparr>"
  by (simp add: demo_heap_def)

lemma demo_to_SWITCH: "Run_to_SWITCH demo_ready 1 False = Done demo_switched"
  by (simp add: Run_to_SWITCH_def Let_def demo_ready_def demo_def Scheduler_def demo_switched_def
        emit_def setStatus_def demo_heap_3)

lemma demo_from_SWITCH: "Run_from_SWITCH demo_switched 3 = Done demo_resumed"
  by (simp add: Run_from_SWITCH_def Let_def demo_ready_def demo_def Scheduler_def
        demo_switched_def demo_resumed_def emit_def CheckToBeDestroyed_def demo_heap_3)

lemma CheckToBeDestroyed_staged:
  "toBeDestroyed s = Some t \<Longrightarrow>
   CheckToBeDestroyed s = (emit [Delete t] s)\<lparr>toBeDestroyed := None\<rparr>"
  by (simp add: CheckToBeDestroyed_def)

section \<open>Sorted insertion\<close>

lemma precedes_mem: "precedes a b xs \<Longrightarrow> a \<in> set xs \<and> b \<in> set xs"
  by (induction xs) auto

lemma precedes_snoc:
  "precedes a b (xs @ [x]) = (precedes a b xs \<or> (a \<in> set xs \<and> b = x))"
  by (induction xs) auto

lemma precedes_Insert_others:
  "a \<noteq> x \<Longrightarrow> b \<noteq> x \<Longrightarrow> precedes a b (Insert c x ys) = precedes a b ys"
  by (induction ys) auto

lemma sorted_Insert:
  fixes key :: "'a \<Rightarrow> int"
  assumes "\<And>a b. (c a b < 0) = (key a < key b)"
  shows "sorted (map key ys) \<Longrightarrow> sorted (map key (Insert c x ys))"
  using assms by (induction ys) (auto simp: less_le_not_le)

lemma precedes_Insert_new_first:
  fixes key :: "'a \<Rightarrow> int"
  assumes "\<And>a b. (c a b < 0) = (key a < key b)"
  shows "sorted (map key ys) \<Longrightarrow> x \<notin> set ys \<Longrightarrow> b \<in> set ys \<Longrightarrow>
         precedes x b (Insert c x ys) = (key x < key b)"
proof (induction ys)
  case Nil
  then show ?case by simp
next
  case (Cons y ys)
  show ?case
  proof (cases "key x < key y")
    case True
    with Cons.prems have "key x < key b" by auto
    with True show ?thesis using Cons.prems by (simp add: assms)
  next
    case False
    show ?thesis
    proof (cases "b \<in> set ys")
      case True
      with Cons False show ?thesis by (auto simp: assms)
    next
      case nb: False
      with Cons.prems have "b = y" by simp
      moreover have "\<not> precedes x y (Insert c x ys)"
        using precedes_mem [of x y "Insert c x ys"] nb \<open>b = y\<close> Cons.prems by auto
      ultimately show ?thesis using False Cons.prems by (auto simp: assms)
    qed
  qed
qed

lemma precedes_Insert_new_last:
  fixes key :: "'a \<Rightarrow> int"
  assumes "\<And>a b. (c a b < 0) = (key a < key b)"
  shows "sorted (map key ys) \<Longrightarrow> x \<notin> set ys \<Longrightarrow> a \<in> set ys \<Longrightarrow>
         precedes a x (Insert c x ys) = (key a \<le> key x)"
proof (induction ys)
  case Nil
  then show ?case by simp
next
  case (Cons y ys)
  show ?case
  proof (cases "key x < key y")
    case True
    have "\<not> precedes a x (y # ys)"
      using precedes_mem [of a x "y # ys"] Cons.prems by auto
    moreover from True Cons.prems have "\<not> key a \<le> key x" by auto
    ultimately show ?thesis using True Cons.prems by (auto simp: assms)
  next
    case False
    then show ?thesis using Cons by (auto simp: assms)
  qed
qed

lemma fold_Insert_snoc: "fold (Insert c) (xs @ [x]) ys = Insert c x (fold (Insert c) xs ys)"
  by simp

lemma set_fold_Insert: "set (fold (Insert c) xs ys) = set xs \<union> set ys"
  by (induction xs arbitrary: ys) auto

lemma sorted_fold_Insert:
  fixes key :: "'a \<Rightarrow> int"
  assumes "\<And>a b. (c a b < 0) = (key a < key b)"
  shows "sorted (map key (fold (Insert c) xs []))"
proof (induction xs rule: rev_induct)
  case Nil
  then show ?case by simp
next
  case (snoc x xs)
  then show ?case using sorted_Insert [of c key, OF assms] by simp
qed

lemma stable_fold_Insert:
  fixes key :: "'a \<Rightarrow> int"
  assumes c: "\<And>a b. (c a b < 0) = (key a < key b)"
  shows "distinct xs \<Longrightarrow> a \<in> set xs \<Longrightarrow> b \<in> set xs \<Longrightarrow> a \<noteq> b \<Longrightarrow>
         precedes a b (fold (Insert c) xs []) =
           (key a < key b \<or> (key a = key b \<and> precedes a b xs))"
proof (induction xs rule: rev_induct)
  case Nil
  then show ?case by simp
next
  case (snoc x xs)
  let ?ys = "fold (Insert c) xs []"
  have srt: "sorted (map key ?ys)" by (rule sorted_fold_Insert [OF c])
  have set_ys: "set ?ys = set xs" by (simp add: set_fold_Insert)
  from snoc.prems have x_new: "x \<notin> set ?ys" and dxs: "distinct xs" by (simp_all add: set_ys)
  consider (old) "a \<noteq> x" "b \<noteq> x" | (first) "a = x" "b \<noteq> x" | (last) "b = x" "a \<noteq> x"
    using snoc.prems by blast
  then show ?case
  proof cases
    case old
    with snoc.prems have "a \<in> set xs" "b \<in> set xs" by auto
    with snoc.IH dxs snoc.prems old show ?thesis
      by (simp add: precedes_Insert_others precedes_snoc)
  next
    case first
    with snoc.prems have b: "b \<in> set ?ys" by (simp add: set_ys)
    have "\<not> precedes x b (xs @ [x])"
      using snoc.prems first by (auto simp: precedes_snoc dest: precedes_mem)
    with first show ?thesis
      using precedes_Insert_new_first [of c key ?ys x b, OF c srt x_new b] by auto
  next
    case last
    with snoc.prems have a: "a \<in> set ?ys" by (simp add: set_ys)
    have "precedes a x (xs @ [x])"
      using a by (simp add: precedes_snoc set_ys)
    with last show ?thesis
      using precedes_Insert_new_last [of c key ?ys x a, OF c srt x_new a] by auto
  qed
qed

lemma precedes_filter:
  "P a \<Longrightarrow> P b \<Longrightarrow> precedes a b (filter P xs) = precedes a b xs"
  by (induction xs) auto

lemma SJFCompare_less: "(SJFCompare h a b < 0) = (remaining h a < remaining h b)"
  by (simp add: SJFCompare_def remaining_def)

lemma PriorityCompare_less: "(PriorityCompare h a b < 0) = (priority (h a) < priority (h b))"
  by (simp add: PriorityCompare_def)

lemma SJFCompare_status [simp]:
  "SJFCompare (h(t := (h t)\<lparr>status := st\<rparr>)) = SJFCompare h"
  by (intro ext) (simp add: SJFCompare_def)

lemma PriorityCompare_status [simp]:
  "PriorityCompare (h(t := (h t)\<lparr>status := st\<rparr>)) = PriorityCompare h"
  by (intro ext) (simp add: PriorityCompare_def)

lemma ReadyToRun_Done:
  assumes "ReadyToRun s t = Done s'"
  shows "level s' = IntOff \<and> level s = IntOff
       \<and> threads s' = (threads s)(t := (threads s t)\<lparr>status := READY\<rparr>)
       \<and> L1 s' = (if 100 \<le> priority (threads s t) \<and> priority (threads s t) \<le> 149
                  then Insert (SJFCompare (threads s)) t (L1 s) else L1 s)
       \<and> L2 s' = (if 50 \<le> priority (threads s t) \<and> priority (threads s t) \<le> 99
                  then Insert (PriorityCompare (threads s)) t (L2 s) else L2 s)"
  using assms
  by (auto simp: ReadyToRun_def Let_def setStatus_def split: if_splits)

lemma admit_all_Done:
  "admit_all s ts = Done s' \<Longrightarrow>
     L1 s' = fold (Insert (SJFCompare (threads s)))
               (filter (\<lambda>t. 100 \<le> priority (threads s t) \<and> priority (threads s t) \<le> 149) ts) (L1 s)
   \<and> L2 s' = fold (Insert (PriorityCompare (threads s)))
               (filter (\<lambda>t. 50 \<le> priority (threads s t) \<and> priority (threads s t) \<le> 99) ts) (L2 s)
   \<and> (\<forall>t. priority (threads s' t) = priority (threads s t)
          \<and> remaining (threads s') t = remaining (threads s) t)"
proof (induction ts arbitrary: s)
  case Nil
  then show ?case by simp
next
  case (Cons t ts)
  from Cons.prems obtain s1 where s1: "ReadyToRun s t = Done s1" and rest: "admit_all s1 ts = Done s'"
    by (cases "ReadyToRun s t") simp_all
  note r = ReadyToRun_Done [OF s1]
  have keys: "priority (threads s1 u) = priority (threads s u)"
    "remaining (threads s1) u = remaining (threads s) u" for u
    using r by (simp_all add: remaining_def)
  have cmp: "SJFCompare (threads s1) = SJFCompare (threads s)"
    "PriorityCompare (threads s1) = PriorityCompare (threads s)"
    using r by simp_all
  from Cons.IH [OF rest] show ?case
    unfolding cmp keys using r by simp
qed

lemma tie_heap_12:
  "tie_heap 1 =
     \<lparr>priority = 120, status = READY, burstTime = 0, approxBurstTime = 4, space = None\<rparr>"
  "tie_heap (Suc 0) =
     \<lparr>priority = 120, status = READY, burstTime = 0, approxBurstTime = 4, space = None\<rparr>"
  "tie_heap 2 =
     \<lparr>priority = 130, status = READY, burstTime = 0, approxBurstTime = 4, space = None\<rparr>"
  by (simp_all add: tie_heap_def)

lemma tie_admit:
  "\<exists>s'. admit_all (Scheduler 3 IntOff tie_heap) [1, 2, 4, 5, 6] = Done s' \<and>
        L1 s' = [1, 2] \<and> L2 s' = [6, 4, 5] \<and> L3 s' = []"
  by (simp add: Scheduler_def ReadyToRun_def Let_def setStatus_def tie_heap_def SJFCompare_def
        PriorityCompare_def)

section \<open>The aging loops\<close>

lemma aging_alt:
  "aging ag s =
     (let r1 = drainL1 ag (L1 s) (threads s) [];
          r2 = drainL2 ag (L2 s) (fst r1) (snd r1) [];
          r3 = drainL3 ag (L3 s) (fst r2) (snd (snd r2)) []
      in s\<lparr>L1 := fst (snd r2), L2 := fst (snd r3), L3 := snd (snd r3), threads := fst r3\<rparr>)"
  by (simp add: aging_def Let_def split: prod.splits)

text \<open>Counting, without any assumption on the lists.\<close>

lemma drainL1_mset: "mset (snd (drainL1 ag l h n)) = mset l + mset n"
  by (induction l arbitrary: h n) (simp_all add: Let_def)

lemma drainL2_mset:
  "mset (fst (snd (drainL2 ag l h n1 n2))) + mset (snd (snd (drainL2 ag l h n1 n2)))
     = mset l + mset n1 + mset n2"
  by (induction l arbitrary: h n1 n2) (simp_all add: Let_def)

lemma drainL3_mset:
  "mset (fst (snd (drainL3 ag l h n2 n3))) + mset (snd (snd (drainL3 ag l h n2 n3)))
     = mset l + mset n2 + mset n3"
  by (induction l arbitrary: h n2 n3) (simp_all add: Let_def Append_def)

lemma drainL2_keeps_newL1:
  "x \<in> set n1 \<Longrightarrow> x \<in> set (fst (snd (drainL2 ag l h n1 n2)))"
proof (induction l arbitrary: h n1 n2)
  case Nil
  then show ?case by simp
next
  case (Cons t l)
  then show ?case by (auto simp: Let_def intro!: Cons.IH)
qed

lemma drainL2_newL2_origin:
  "x \<in> set (snd (snd (drainL2 ag l h n1 n2))) \<Longrightarrow> x \<in> set l \<or> x \<in> set n2"
proof (induction l arbitrary: h n1 n2)
  case Nil
  then show ?case by simp
next
  case (Cons t l)
  then show ?case by (auto simp: Let_def split: if_splits dest!: Cons.IH)
qed

lemma drainL3_keeps_newL2:
  "x \<in> set n2 \<Longrightarrow> x \<in> set (fst (snd (drainL3 ag l h n2 n3)))"
proof (induction l arbitrary: h n2 n3)
  case Nil
  then show ?case by simp
next
  case (Cons t l)
  then show ?case by (auto simp: Let_def intro!: Cons.IH)
qed

lemma drainL3_newL2_origin:
  "x \<in> set (fst (snd (drainL3 ag l h n2 n3))) \<Longrightarrow> x \<in> set l \<or> x \<in> set n2"
proof (induction l arbitrary: h n2 n3)
  case Nil
  then show ?case by simp
next
  case (Cons t l)
  then show ?case by (auto simp: Let_def split: if_splits dest!: Cons.IH)
qed

lemma drainL3_newL3_origin:
  "x \<in> set (snd (snd (drainL3 ag l h n2 n3))) \<Longrightarrow> x \<in> set l \<or> x \<in> set n3"
proof (induction l arbitrary: h n2 n3)
  case Nil
  then show ?case by simp
next
  case (Cons t l)
  then show ?case by (auto simp: Let_def Append_def split: if_splits dest!: Cons.IH)
qed

lemma count_list_once_Cons:
  "count_list (x # l) t = 1 \<Longrightarrow> (x = t \<and> t \<notin> set l) \<or> (x \<noteq> t \<and> count_list l t = 1)"
  by (auto simp: count_list_0_iff split: if_splits)

text \<open>A thread that is not in the drained list is left alone.\<close>

lemma drainL1_absent:
  "t \<notin> set l \<Longrightarrow> fst (drainL1 ag l h n) t = h t"
  by (induction l arbitrary: h n) (auto simp: Let_def)

lemma drainL2_absent:
  "t \<notin> set l \<Longrightarrow>
     fst (drainL2 ag l h n1 n2) t = h t
   \<and> (t \<in> set (fst (snd (drainL2 ag l h n1 n2)))) = (t \<in> set n1)
   \<and> (t \<in> set (snd (snd (drainL2 ag l h n1 n2)))) = (t \<in> set n2)"
  by (induction l arbitrary: h n1 n2) (auto simp: Let_def)

lemma drainL3_absent:
  "t \<notin> set l \<Longrightarrow>
     fst (drainL3 ag l h n2 n3) t = h t
   \<and> (t \<in> set (fst (snd (drainL3 ag l h n2 n3)))) = (t \<in> set n2)
   \<and> (t \<in> set (snd (snd (drainL3 ag l h n2 n3)))) = (t \<in> set n3)"
  by (induction l arbitrary: h n2 n3) (auto simp: Let_def Append_def)

text \<open>A thread that is in the drained list once is aged once and tested once.\<close>

lemma drainL1_once:
  "count_list l t = 1 \<Longrightarrow>
     fst (drainL1 ag l h n) t = ag (h t)"
proof (induction l arbitrary: h n)
  case Nil
  then show ?case by simp
next
  case (Cons x l)
  show ?case
  proof (cases "x = t")
    case True
    with Cons.prems have "t \<notin> set l" by (simp add: count_list_0_iff)
    note abs = drainL1_absent [OF this]
    show ?thesis unfolding True by (simp add: Let_def abs)
  next
    case False
    with Cons.prems have "count_list l t = 1" by simp
    note ih = Cons.IH [OF this]
    from False show ?thesis by (simp add: Let_def ih)
  qed
qed

lemma drainL2_once:
  "count_list l t = 1 \<Longrightarrow>
     fst (drainL2 ag l h n1 n2) t = ag (h t)
   \<and> (t \<in> set (fst (snd (drainL2 ag l h n1 n2))))
        = (t \<in> set n1 \<or> 100 \<le> priority (ag (h t)))
   \<and> (t \<in> set (snd (snd (drainL2 ag l h n1 n2))))
        = (t \<in> set n2 \<or> priority (ag (h t)) < 100)"
proof (induction l arbitrary: h n1 n2)
  case Nil
  then show ?case by simp
next
  case (Cons x l)
  show ?case
  proof (cases "x = t")
    case True
    with Cons.prems have "t \<notin> set l" by (simp add: count_list_0_iff)
    note abs = drainL2_absent [OF this]
    show ?thesis unfolding True by (simp add: Let_def abs)
  next
    case False
    with Cons.prems have "count_list l t = 1" by simp
    note ih = Cons.IH [OF this]
    from False show ?thesis by (simp add: Let_def ih)
  qed
qed

lemma drainL3_once:
  "count_list l t = 1 \<Longrightarrow>
     fst (drainL3 ag l h n2 n3) t = ag (h t)
   \<and> (t \<in> set (fst (snd (drainL3 ag l h n2 n3))))
        = (t \<in> set n2 \<or> 50 \<le> priority (ag (h t)))
   \<and> (t \<in> set (snd (snd (drainL3 ag l h n2 n3))))
        = (t \<in> set n3 \<or> priority (ag (h t)) < 50)"
proof (induction l arbitrary: h n2 n3)
  case Nil
  then show ?case by simp
next
  case (Cons x l)
  show ?case
  proof (cases "x = t")
    case True
    with Cons.prems have "t \<notin> set l" by (simp add: count_list_0_iff)
    note abs = drainL3_absent [OF this]
    show ?thesis unfolding True by (simp add: Let_def abs Append_def)
  next
    case False
    with Cons.prems have "count_list l t = 1" by simp
    note ih = Cons.IH [OF this]
    from False show ?thesis by (simp add: Let_def ih Append_def)
  qed
qed

lemma once_in_tiers:
  assumes "count_list (A @ B @ C) t = 1"
  shows "(count_list A t = 1 \<and> t \<notin> set B \<and> t \<notin> set C)
       \<or> (t \<notin> set A \<and> count_list B t = 1 \<and> t \<notin> set C)
       \<or> (t \<notin> set A \<and> t \<notin> set B \<and> count_list C t = 1)"
proof -
  from assms have "count_list A t + count_list B t + count_list C t = 1" by simp
  then show ?thesis by (auto simp: count_list_0_iff [symmetric])
qed

lemma aging_lists:
  "L1 (aging ag s) =
     fst (snd (drainL2 ag (L2 s) (fst (drainL1 ag (L1 s) (threads s) []))
                 (snd (drainL1 ag (L1 s) (threads s) [])) []))"
  "L2 (aging ag s) =
     fst (snd (drainL3 ag (L3 s)
       (fst (drainL2 ag (L2 s) (fst (drainL1 ag (L1 s) (threads s) []))
                 (snd (drainL1 ag (L1 s) (threads s) [])) []))
       (snd (snd (drainL2 ag (L2 s) (fst (drainL1 ag (L1 s) (threads s) []))
                 (snd (drainL1 ag (L1 s) (threads s) [])) []))) []))"
  "L3 (aging ag s) =
     snd (snd (drainL3 ag (L3 s)
       (fst (drainL2 ag (L2 s) (fst (drainL1 ag (L1 s) (threads s) []))
                 (snd (drainL1 ag (L1 s) (threads s) [])) []))
       (snd (snd (drainL2 ag (L2 s) (fst (drainL1 ag (L1 s) (threads s) []))
                 (snd (drainL1 ag (L1 s) (threads s) [])) []))) []))"
  "threads (aging ag s) =
     fst (drainL3 ag (L3 s)
       (fst (drainL2 ag (L2 s) (fst (drainL1 ag (L1 s) (threads s) []))
                 (snd (drainL1 ag (L1 s) (threads s) [])) []))
       (snd (snd (drainL2 ag (L2 s) (fst (drainL1 ag (L1 s) (threads s) []))
                 (snd (drainL1 ag (L1 s) (threads s) [])) []))) [])"
  by (simp_all add: aging_alt Let_def)

lemma age_state_aged:
  "L1 (aging (raise_by 10) age_state) = [4, 1]"
  "L2 (aging (raise_by 10) age_state) = [6, 5]"
  "L3 (aging (raise_by 10) age_state) = [7]"
  by (simp_all add: aging_lists age_state_def Scheduler_def age_heap_def raise_by_def Let_def
        SJFCompare_def PriorityCompare_def Append_def)

section \<open>The preemption check\<close>

lemma checkPreemptive_result:
  "fst (checkPreemptive s) =
     (L1 s \<noteq> [] \<and>
      approxBurstTime (threads s (hd (L1 s))) < approxBurstTime (threads s (currentThread s)))"
  by (simp add: checkPreemptive_def Let_def split: list.split)

lemma checkPreemptive_frame:
  "mset (L1 (snd (checkPreemptive s))) = mset (L1 s)"
  "L2 (snd (checkPreemptive s)) = L2 s" "L3 (snd (checkPreemptive s)) = L3 s"
  "threads (snd (checkPreemptive s)) = threads s"
  "toBeDestroyed (snd (checkPreemptive s)) = toBeDestroyed s"
  "currentThread (snd (checkPreemptive s)) = currentThread s"
  by (simp_all add: checkPreemptive_def Let_def split: list.split)

section \<open>The preemption check against the ordering of \<open>L1\<close>\<close>

text \<open>
  C1. The specification has \<open>checkPreemptive\<close> return true exactly when \<open>L1\<close> is not
  empty and the remaining work (estimate minus consumed time) of its head is strictly less
  than that of the running thread. The code compares the estimates alone
  (\<open>checkPreemptive_result\<close>), unlike \<open>SJFCompare\<close>, which orders \<open>L1\<close>. In \<open>sjf_state\<close>
  the head of \<open>L1\<close> has remaining work 2 (estimate 10, consumed 8), the running thread has
  remaining work 5 (estimate 5, consumed 0), and the check returns false.
\<close>

theorem checkPreemptive_compares_estimates:
  "L1 sjf_state = [1] \<and> currentThread sjf_state = 2 \<and>
   remaining (threads sjf_state) 1 = 2 \<and> remaining (threads sjf_state) 2 = 5 \<and>
   fst (checkPreemptive sjf_state) = False"
  by (simp add: checkPreemptive_def sjf_state_def Scheduler_def sjf_heap_def remaining_def Let_def)

text \<open>
  C6. The specification has \<open>checkPreemptive\<close> leave the membership, the order and the
  count of every tier unchanged. The code removes the head of \<open>L1\<close> and inserts it again;
  the units, their count and everything else stay (\<open>checkPreemptive_frame\<close>), but the
  head is put behind the residents that tie with it. In \<open>tie_state\<close>, \<open>L1 = [1, 2]\<close> with
  equal remaining work becomes \<open>[2, 1]\<close>.
\<close>

theorem checkPreemptive_rotates_ties:
  "L1 tie_state = [1, 2] \<and>
   remaining (threads tie_state) 1 = remaining (threads tie_state) 2 \<and>
   L1 (snd (checkPreemptive tie_state)) = [2, 1]"
  by (simp add: checkPreemptive_def tie_state_def Scheduler_def tie_heap_def remaining_def Let_def
        SJFCompare_def)

section \<open>Admission\<close>

text \<open>
  C3. With interrupts off, \<open>ReadyToRun\<close> inserts the thread into \<open>L1\<close> exactly when its
  priority is in [100,149], into \<open>L2\<close> exactly when it is in [50,99], appends it to \<open>L3\<close>
  exactly when it is in [0,49], and for a priority below 0 or above 149 it aborts at
  \<open>ASSERTNOTREACHED\<close> with the three lists as they were.
\<close>

theorem ReadyToRun_band:
  assumes "level s = IntOff"
  shows "((100 \<le> priority (threads s t) \<and> priority (threads s t) \<le> 149) =
            (\<exists>s'. ReadyToRun s t = Done s' \<and>
                  L1 s' = Insert (SJFCompare (threads s')) t (L1 s) \<and>
                  L2 s' = L2 s \<and> L3 s' = L3 s))
       \<and> ((50 \<le> priority (threads s t) \<and> priority (threads s t) \<le> 99) =
            (\<exists>s'. ReadyToRun s t = Done s' \<and>
                  L1 s' = L1 s \<and>
                  L2 s' = Insert (PriorityCompare (threads s')) t (L2 s) \<and> L3 s' = L3 s))
       \<and> ((0 \<le> priority (threads s t) \<and> priority (threads s t) \<le> 49) =
            (\<exists>s'. ReadyToRun s t = Done s' \<and>
                  L1 s' = L1 s \<and> L2 s' = L2 s \<and> L3 s' = Append t (L3 s)))
       \<and> ((priority (threads s t) < 0 \<or> priority (threads s t) > 149) =
            (\<exists>s'. ReadyToRun s t = Abort NotReached s' \<and>
                  L1 s' = L1 s \<and> L2 s' = L2 s \<and> L3 s' = L3 s))"
  using assms
  by (auto simp: ReadyToRun_def setStatus_def Let_def Append_def)

text \<open>Instance of C3: the unit of priority 120 goes to \<open>L1\<close>.\<close>

theorem ReadyToRun_band_witness:
  "level demo = IntOff \<and>
   (\<exists>s'. ReadyToRun demo 1 = Done s' \<and>
         L1 s' = Insert (SJFCompare (threads s')) 1 (L1 demo) \<and>
         L2 s' = L2 demo \<and> L3 s' = L3 demo)"
  using ReadyToRun_band [of demo 1]
  by (simp add: demo_def Scheduler_def demo_heap_def)

text \<open>
  C8. With interrupts off, an admission with a priority below 0 or above 149 aborts at
  \<open>ASSERTNOTREACHED\<close>; at that point the only change to the state is that the status of
  the thread has been set to \<open>READY\<close>: no list and no other field of any thread has
  changed.
\<close>

theorem ReadyToRun_out_of_range:
  assumes "level s = IntOff"
    and "priority (threads s t) < 0 \<or> 149 < priority (threads s t)"
  shows "ReadyToRun s t =
           Abort NotReached (s\<lparr>threads := (threads s)(t := (threads s t)\<lparr>status := READY\<rparr>)\<rparr>)"
  using assms by (auto simp: ReadyToRun_def Let_def setStatus_def)

text \<open>Instance of C8: the running unit of priority 200 is rejected.\<close>

theorem ReadyToRun_out_of_range_witness:
  "level demo = IntOff \<and> 149 < priority (threads demo 3) \<and>
   ReadyToRun demo 3 = Abort NotReached demo_rejected \<and>
   L1 demo_rejected = L1 demo \<and> L2 demo_rejected = L2 demo \<and> L3 demo_rejected = L3 demo"
  using ReadyToRun_out_of_range [of demo 3]
  by (simp add: demo_def Scheduler_def demo_heap_3 demo_rejected_def)

text \<open>
  C8 does not hold with "the admitted unit has not been modified": the thread of
  priority 200 had status \<open>RUNNING\<close>, and at the point of failure its status is \<open>READY\<close>.
\<close>

theorem ReadyToRun_sets_status_before_failing:
  "level demo = IntOff \<and> priority (threads demo 3) = 200 \<and>
   status (threads demo 3) = RUNNING \<and>
   ReadyToRun demo 3 = Abort NotReached demo_rejected \<and>
   status (threads demo_rejected 3) = READY \<and>
   threads demo_rejected 3 \<noteq> threads demo 3"
  by (simp add: ReadyToRun_def Let_def setStatus_def demo_def Scheduler_def demo_heap_3
        demo_rejected_def)

section \<open>Selection\<close>

text \<open>
  C4. With interrupts off, \<open>FindNextToRun\<close> removes and returns the front of \<open>L1\<close> when
  \<open>L1\<close> is not empty; otherwise the front of \<open>L2\<close> when \<open>L2\<close> is not empty; otherwise
  the front of \<open>L3\<close> when \<open>L3\<close> is not empty; and with all three empty it returns
  \<open>NULL\<close> and leaves the state as it was.
\<close>

theorem FindNextToRun_precedence:
  assumes "level s = IntOff"
  shows "(L1 s \<noteq> [] \<longrightarrow>
            FindNextToRun s = Done (Some (hd (L1 s)), s\<lparr>L1 := tl (L1 s)\<rparr>))
       \<and> (L1 s = [] \<and> L2 s \<noteq> [] \<longrightarrow>
            FindNextToRun s = Done (Some (hd (L2 s)), s\<lparr>L2 := tl (L2 s)\<rparr>))
       \<and> (L1 s = [] \<and> L2 s = [] \<and> L3 s \<noteq> [] \<longrightarrow>
            FindNextToRun s = Done (Some (hd (L3 s)), s\<lparr>L3 := tl (L3 s)\<rparr>))
       \<and> (L1 s = [] \<and> L2 s = [] \<and> L3 s = [] \<longrightarrow>
            FindNextToRun s = Done (None, s))"
  using assms
  by (simp add: FindNextToRun_def split: list.splits)

text \<open>
  Instance of C4: with \<open>L1 = [2, 1]\<close> thread 2 is returned and \<open>L2\<close>, \<open>L3\<close> are not
  touched; the fresh scheduler returns \<open>NULL\<close>.
\<close>

theorem FindNextToRun_precedence_witness:
  "level demo_ready = IntOff \<and> L1 demo_ready \<noteq> [] \<and>
   FindNextToRun demo_ready = Done (Some 2, demo_ready\<lparr>L1 := [1]\<rparr>) \<and>
   level demo = IntOff \<and> L1 demo = [] \<and> L2 demo = [] \<and> L3 demo = [] \<and>
   FindNextToRun demo = Done (None, demo)"
  using FindNextToRun_precedence [of demo_ready] FindNextToRun_precedence [of demo]
  by (simp add: demo_ready_def demo_def Scheduler_def)

section \<open>Dispatch and deferred destruction\<close>

text \<open>
  C5. A finishing dispatch with interrupts off and an empty slot stages the current thread
  in \<open>toBeDestroyed\<close>; a second finishing dispatch from the resulting state aborts, and
  the destruction check from the resulting state deletes the staged thread and empties the
  slot. A finishing dispatch with the slot occupied aborts at the \<open>ASSERT\<close>. After
  \<open>CheckToBeDestroyed\<close> the slot is always empty, a repeated check changes nothing, and
  a check on an empty slot returns the state as it was.
\<close>

theorem destruction_discipline:
  "(level s = IntOff \<and> toBeDestroyed s = None \<longrightarrow>
      (\<exists>s'. Run_to_SWITCH s nextThread True = Done s' \<and>
            toBeDestroyed s' = Some (currentThread s) \<and>
            Run_to_SWITCH s' nextThread' True = Abort AssertionFailed s' \<and>
            toBeDestroyed (CheckToBeDestroyed s') = None \<and>
            calls (CheckToBeDestroyed s') = calls s' @ [Delete (currentThread s)]))
 \<and> (toBeDestroyed s \<noteq> None \<longrightarrow>
      Run_to_SWITCH s nextThread True = Abort AssertionFailed s \<and>
      Run others s nextThread True = Abort AssertionFailed s)
 \<and> toBeDestroyed (CheckToBeDestroyed s) = None
 \<and> CheckToBeDestroyed (CheckToBeDestroyed s) = CheckToBeDestroyed s
 \<and> (toBeDestroyed s = None \<longrightarrow> CheckToBeDestroyed s = s)"
proof -
  have stage: "\<exists>s'. Run_to_SWITCH s nextThread True = Done s' \<and>
            toBeDestroyed s' = Some (currentThread s) \<and>
            Run_to_SWITCH s' nextThread' True = Abort AssertionFailed s' \<and>
            toBeDestroyed (CheckToBeDestroyed s') = None \<and>
            calls (CheckToBeDestroyed s') = calls s' @ [Delete (currentThread s)]"
    if "level s = IntOff" "toBeDestroyed s = None"
  proof -
    from Run_to_SWITCH_cases [of s nextThread True] that
    obtain s' where s': "Run_to_SWITCH s nextThread True = Done s'"
      "toBeDestroyed s' = Some (currentThread s)"
      by (auto simp: Run_to_SWITCH_Abort_iff)
    then have "Run_to_SWITCH s' nextThread' True = Abort AssertionFailed s'"
      by (simp add: Run_to_SWITCH_Abort_iff)
    moreover have "calls (CheckToBeDestroyed s') = calls s' @ [Delete (currentThread s)]"
      using s'(2) by (simp add: CheckToBeDestroyed_staged)
    ultimately show ?thesis using s' by simp
  qed
  have conflict: "Run_to_SWITCH s nextThread True = Abort AssertionFailed s"
    if "toBeDestroyed s \<noteq> None"
    using that by (simp add: Run_to_SWITCH_Abort_iff)
  then have conflict': "Run others s nextThread True = Abort AssertionFailed s"
    if "toBeDestroyed s \<noteq> None"
    using that by (simp add: Run_def)
  have again: "CheckToBeDestroyed (CheckToBeDestroyed s) = CheckToBeDestroyed s"
    by (rule CheckToBeDestroyed_empty) simp
  from stage conflict conflict' again show ?thesis
    by (simp add: CheckToBeDestroyed_empty)
qed

text \<open>
  Instance of C5: thread 3 finishes in \<open>demo\<close>; in \<open>demo_staged\<close> the slot is already
  occupied.
\<close>

theorem destruction_discipline_witness:
  "level demo = IntOff \<and> toBeDestroyed demo = None \<and>
   (\<exists>s'. Run_to_SWITCH demo 1 True = Done s' \<and> toBeDestroyed s' = Some 3 \<and>
         Run_to_SWITCH s' 2 True = Abort AssertionFailed s' \<and>
         toBeDestroyed (CheckToBeDestroyed s') = None \<and>
         calls (CheckToBeDestroyed s') = calls s' @ [Delete 3]) \<and>
   CheckToBeDestroyed demo = demo \<and>
   toBeDestroyed demo_staged \<noteq> None \<and>
   Run_to_SWITCH demo_staged 1 True = Abort AssertionFailed demo_staged"
  using destruction_discipline [of demo 1 2] destruction_discipline [of demo_staged 1]
  by (simp add: demo_def demo_staged_def Scheduler_def)

text \<open>
  C10. \<open>Run\<close> leaves \<open>L1\<close>, \<open>L2\<close> and \<open>L3\<close> as they are: the statements up to \<open>SWITCH\<close>
  do (also when they abort), the statements after the return of \<open>SWITCH\<close> do, and for
  a whole call that returns, the lists at the switch are those at entry and the lists at
  the return are those that the other threads left at the resumption.
\<close>

theorem Run_keeps_tiers:
  "(Run_to_SWITCH s nextThread finishing = Done s1 \<longrightarrow>
      L1 s1 = L1 s \<and> L2 s1 = L2 s \<and> L3 s1 = L3 s)
 \<and> (Run_to_SWITCH s nextThread finishing = Abort e s1 \<longrightarrow>
      L1 s1 = L1 s \<and> L2 s1 = L2 s \<and> L3 s1 = L3 s)
 \<and> (Run_from_SWITCH s2 oldThread = Done s3 \<longrightarrow>
      L1 s3 = L1 s2 \<and> L2 s3 = L2 s2 \<and> L3 s3 = L3 s2)
 \<and> (Run others s nextThread finishing = Done s' \<longrightarrow>
      (\<exists>a b. Run_to_SWITCH s nextThread finishing = Done a \<and> others a = Some b \<and>
             L1 a = L1 s \<and> L2 a = L2 s \<and> L3 a = L3 s \<and>
             L1 s' = L1 b \<and> L2 s' = L2 b \<and> L3 s' = L3 b))"
proof -
  have pre: "L1 x = L1 s \<and> L2 x = L2 s \<and> L3 x = L3 s"
    if "Run_to_SWITCH s nextThread finishing = Done x" for x
    using Run_to_SWITCH_cases [of s nextThread finishing] that by auto
  have pre_abort: "L1 s1 = L1 s \<and> L2 s1 = L2 s \<and> L3 s1 = L3 s"
    if "Run_to_SWITCH s nextThread finishing = Abort e s1"
    using that by (simp add: Run_to_SWITCH_Abort_iff)
  have post: "L1 y = L1 x \<and> L2 y = L2 x \<and> L3 y = L3 x"
    if "Run_from_SWITCH x old = Done y" for x y old
    using Run_from_SWITCH_cases [of x old] that by auto
  have whole: "\<exists>a b. Run_to_SWITCH s nextThread finishing = Done a \<and> others a = Some b \<and>
             L1 a = L1 s \<and> L2 a = L2 s \<and> L3 a = L3 s \<and>
             L1 s' = L1 b \<and> L2 s' = L2 b \<and> L3 s' = L3 b"
    if run: "Run others s nextThread finishing = Done s'"
  proof -
    from run obtain a where a: "Run_to_SWITCH s nextThread finishing = Done a"
      by (cases "Run_to_SWITCH s nextThread finishing") (simp_all add: Run_def)
    with run obtain b where b: "others a = Some b"
      by (cases "others a") (simp_all add: Run_def)
    with a run have "Run_from_SWITCH b (currentThread s) = Done s'"
      by (simp add: Run_def)
    with a b pre post show ?thesis by blast
  qed
  from pre pre_abort post whole show ?thesis by blast
qed

text \<open>
  Instance of C10: a dispatch from thread 3 to thread 1 in \<open>demo_ready\<close>, resumed at once,
  and the aborting dispatch in \<open>demo_staged\<close>.
\<close>

theorem Run_keeps_tiers_witness:
  "Run_to_SWITCH demo_ready 1 False = Done demo_switched \<and>
   L1 demo_switched = L1 demo_ready \<and> L2 demo_switched = L2 demo_ready \<and>
   L3 demo_switched = L3 demo_ready \<and>
   Run_to_SWITCH demo_staged 1 True = Abort AssertionFailed demo_staged \<and>
   Run_from_SWITCH demo_switched 3 = Done demo_resumed \<and>
   L1 demo_resumed = L1 demo_switched \<and> L2 demo_resumed = L2 demo_switched \<and>
   L3 demo_resumed = L3 demo_switched \<and>
   Run Some demo_ready 1 False = Done demo_resumed \<and>
   L1 demo_resumed = [2, 1] \<and> L2 demo_resumed = [4] \<and> L3 demo_resumed = [5]"
  using Run_keeps_tiers [where s = demo_ready and nextThread = 1 and finishing = False
            and ?s1.0 = demo_switched and ?s2.0 = demo_switched and oldThread = 3
            and ?s3.0 = demo_resumed and others = Some and s' = demo_resumed]
        Run_keeps_tiers [where s = demo_staged and nextThread = 1 and finishing = True
            and e = AssertionFailed and ?s1.0 = demo_staged]
        demo_to_SWITCH demo_from_SWITCH
  by (simp add: Run_def Run_to_SWITCH_Abort_iff demo_staged_def demo_ready_def demo_def
        Scheduler_def demo_switched_def demo_resumed_def)

section \<open>Order within the sorted tiers\<close>

text \<open>
  Admissions alone keep the order of the specification. Admit the distinct threads
  \<open>ts\<close>, in this order, to a new scheduler. For two
  different residents \<open>a\<close>, \<open>b\<close> of \<open>L1\<close>, \<open>a\<close> stands in front of \<open>b\<close> exactly when its
  remaining work is strictly less, or equal with \<open>a\<close> admitted earlier; likewise in \<open>L2\<close>
  with the priority value.
\<close>

lemma tier_order_stable:
  assumes "admit_all (Scheduler cur IntOff h) ts = Done s'"
    and "distinct ts" and "a \<noteq> b"
  shows "(a \<in> set (L1 s') \<and> b \<in> set (L1 s') \<longrightarrow>
            precedes a b (L1 s') =
              (remaining (threads s') a < remaining (threads s') b \<or>
               (remaining (threads s') a = remaining (threads s') b \<and> precedes a b ts)))
       \<and> (a \<in> set (L2 s') \<and> b \<in> set (L2 s') \<longrightarrow>
            precedes a b (L2 s') =
              (priority (threads s' a) < priority (threads s' b) \<or>
               (priority (threads s' a) = priority (threads s' b) \<and> precedes a b ts)))"
proof -
  let ?s = "Scheduler cur IntOff h"
  let ?P1 = "\<lambda>t. 100 \<le> priority (h t) \<and> priority (h t) \<le> 149"
  let ?P2 = "\<lambda>t. 50 \<le> priority (h t) \<and> priority (h t) \<le> 99"
  note adm = admit_all_Done [OF assms(1)]
  have h: "threads ?s = h" "L1 ?s = []" "L2 ?s = []" by (simp_all add: Scheduler_def)
  from adm have l1: "L1 s' = fold (Insert (SJFCompare h)) (filter ?P1 ts) []"
    and l2: "L2 s' = fold (Insert (PriorityCompare h)) (filter ?P2 ts) []"
    and pr: "priority (threads s' u) = priority (h u)"
    and re: "remaining (threads s') u = remaining h u" for u
    unfolding h by simp_all
  have tier1: "precedes a b (L1 s') =
      (remaining h a < remaining h b \<or> (remaining h a = remaining h b \<and> precedes a b ts))"
    if "a \<in> set (L1 s')" "b \<in> set (L1 s')"
  proof -
    from that have ab: "a \<in> set (filter ?P1 ts)" "b \<in> set (filter ?P1 ts)"
      by (simp_all add: l1 set_fold_Insert)
    then have "?P1 a" "?P1 b" by simp_all
    then have "precedes a b (filter ?P1 ts) = precedes a b ts"
      by (rule precedes_filter [of ?P1])
    with stable_fold_Insert [of "SJFCompare h" "remaining h" "filter ?P1 ts" a b,
        OF SJFCompare_less _ ab assms(3)] assms(2)
    show ?thesis by (simp add: l1)
  qed
  have tier2: "precedes a b (L2 s') =
      (priority (h a) < priority (h b) \<or> (priority (h a) = priority (h b) \<and> precedes a b ts))"
    if "a \<in> set (L2 s')" "b \<in> set (L2 s')"
  proof -
    from that have ab: "a \<in> set (filter ?P2 ts)" "b \<in> set (filter ?P2 ts)"
      by (simp_all add: l2 set_fold_Insert)
    then have "?P2 a" "?P2 b" by simp_all
    then have "precedes a b (filter ?P2 ts) = precedes a b ts"
      by (rule precedes_filter [of ?P2])
    with stable_fold_Insert [of "PriorityCompare h" "\<lambda>t. priority (h t)" "filter ?P2 ts" a b,
        OF PriorityCompare_less _ ab assms(3)] assms(2)
    show ?thesis by (simp add: l2)
  qed
  from tier1 tier2 show ?thesis by (simp add: pr re)
qed

text \<open>
  An instance: threads 1 and 2 tie on remaining work in \<open>L1\<close>, threads 4 and 5 tie on
  priority in \<open>L2\<close>, thread 6 has a smaller priority than both.
\<close>

lemma tier_order_stable_instance:
  "\<exists>s'. admit_all (Scheduler 3 IntOff tie_heap) [1, 2, 4, 5, 6] = Done s' \<and>
        distinct [1, 2, 4, 5, 6 :: nat] \<and>
        L1 s' = [1, 2] \<and> L2 s' = [6, 4, 5] \<and>
        remaining (threads s') 1 = remaining (threads s') 2 \<and>
        precedes 1 2 [1, 2, 4, 5, 6 :: nat] \<and> precedes 1 2 (L1 s') \<and>
        priority (threads s' 4) = priority (threads s' 5) \<and>
        precedes 4 5 [1, 2, 4, 5, 6 :: nat] \<and> precedes 4 5 (L2 s') \<and>
        priority (threads s' 6) < priority (threads s' 4) \<and> precedes 6 4 (L2 s')"
proof -
  from tie_admit obtain s' where
    adm: "admit_all (Scheduler 3 IntOff tie_heap) [1, 2, 4, 5, 6] = Done s'"
    and l: "L1 s' = [1, 2]" "L2 s' = [6, 4, 5]" by blast
  have d: "distinct [1, 2, 4, 5, 6 :: nat]" by simp
  note keys = admit_all_Done [OF adm]
  have k: "remaining (threads s') 1 = remaining (threads s') 2"
    "priority (threads s' 4) = priority (threads s' 5)"
    "priority (threads s' 6) < priority (threads s' 4)"
    using keys by (simp_all add: Scheduler_def tie_heap_def remaining_def)
  have "precedes 1 2 (L1 s')"
    using tier_order_stable [OF adm d, of 1 2] k l by simp
  moreover have "precedes 4 5 (L2 s')"
    using tier_order_stable [OF adm d, of 4 5] k l by simp
  moreover have "precedes 6 4 (L2 s')"
    using tier_order_stable [OF adm d, of 6 4] k l by simp
  ultimately show ?thesis using adm l k by simp
qed

text \<open>
  C7. The specification has, for any two residents of \<open>L1\<close>, the one with less remaining
  work dequeue first and, on a tie, the one admitted earlier. Admissions alone keep this
  order (\<open>tier_order_stable\<close>); \<open>checkPreemptive\<close> does not. Threads 1 and 2, of equal
  remaining work, are admitted in this order to a new scheduler, which gives \<open>L1 = [1, 2]\<close>;
  after one \<open>checkPreemptive\<close> the list is \<open>[2, 1]\<close>, and thread 2, admitted later, dequeues
  first.
\<close>

theorem checkPreemptive_breaks_admission_order:
  "admit_all (Scheduler 3 IntOff tie_heap) [1, 2] = Done tie_admitted \<and>
   L1 tie_admitted = [1, 2] \<and>
   remaining (threads tie_admitted) 1 = remaining (threads tie_admitted) 2 \<and>
   precedes 1 2 [1, 2 :: nat] \<and>
   L1 (snd (checkPreemptive tie_admitted)) = [2, 1] \<and>
   \<not> precedes 1 2 (L1 (snd (checkPreemptive tie_admitted)))"
  by (simp add: Scheduler_def ReadyToRun_def Let_def setStatus_def tie_admitted_def tie_heap_12
        SJFCompare_def remaining_def checkPreemptive_def)

section \<open>Aging\<close>

text \<open>
  C2. Let a thread stand at exactly one place of the three tiers. The pass ages it once.
  If it was in \<open>L1\<close> it is in the new \<open>L1\<close>, and in no other list, whatever its aged
  priority. With an aged priority of at most 149, the bound of the priority range: if
  it was in \<open>L2\<close> it is in the new \<open>L1\<close> exactly when its aged priority is in [100,149] and
  in the new \<open>L2\<close> exactly when it is not; if it was in \<open>L3\<close> it is in the new \<open>L2\<close> exactly
  when its aged priority is in [50,149] and in the new \<open>L3\<close> exactly when it is not. A
  thread of \<open>L3\<close> is never in the new \<open>L1\<close>. The tests of the code themselves, \<open>>= 100\<close> and
  \<open>>= 50\<close>, are the last two parts of the statement.
\<close>

theorem aging_promotion:
  assumes "count_list (L1 s @ L2 s @ L3 s) t = 1"
  shows "threads (aging ag s) t = ag (threads s t)
       \<and> (t \<in> set (L1 s) \<longrightarrow>
            t \<in> set (L1 (aging ag s)) \<and>
            t \<notin> set (L2 (aging ag s)) \<and> t \<notin> set (L3 (aging ag s)))
       \<and> (priority (threads (aging ag s) t) \<le> 149 \<longrightarrow>
            (t \<in> set (L2 s) \<longrightarrow>
               (t \<in> set (L1 (aging ag s)))
                 = (100 \<le> priority (threads (aging ag s) t)
                    \<and> priority (threads (aging ag s) t) \<le> 149) \<and>
               (t \<in> set (L2 (aging ag s)))
                 = (\<not> (100 \<le> priority (threads (aging ag s) t)
                       \<and> priority (threads (aging ag s) t) \<le> 149)) \<and>
               t \<notin> set (L3 (aging ag s))) \<and>
            (t \<in> set (L3 s) \<longrightarrow>
               (t \<in> set (L2 (aging ag s)))
                 = (50 \<le> priority (threads (aging ag s) t)
                    \<and> priority (threads (aging ag s) t) \<le> 149) \<and>
               (t \<in> set (L3 (aging ag s)))
                 = (\<not> (50 \<le> priority (threads (aging ag s) t)
                       \<and> priority (threads (aging ag s) t) \<le> 149))))
       \<and> (t \<in> set (L3 s) \<longrightarrow> t \<notin> set (L1 (aging ag s)))
       \<and> (t \<in> set (L2 s) \<longrightarrow>
            (t \<in> set (L1 (aging ag s))) = (100 \<le> priority (threads (aging ag s) t)) \<and>
            (t \<in> set (L2 (aging ag s))) = (priority (threads (aging ag s) t) < 100))
       \<and> (t \<in> set (L3 s) \<longrightarrow>
            (t \<in> set (L2 (aging ag s))) = (50 \<le> priority (threads (aging ag s) t)) \<and>
            (t \<in> set (L3 (aging ag s))) = (priority (threads (aging ag s) t) < 50))"
proof -
  define h where "h = threads s"
  define r1 where "r1 = drainL1 ag (L1 s) h []"
  define r2 where "r2 = drainL2 ag (L2 s) (fst r1) (snd r1) []"
  define r3 where "r3 = drainL3 ag (L3 s) (fst r2) (snd (snd r2)) []"
  have l: "L1 (aging ag s) = fst (snd r2)" "L2 (aging ag s) = fst (snd r3)"
    "L3 (aging ag s) = snd (snd r3)" "threads (aging ag s) = fst r3"
    by (simp_all add: aging_lists r1_def r2_def r3_def h_def)
  have n1: "set (snd r1) = set (L1 s)"
    using drainL1_mset [of ag "L1 s" h "[]"] by (auto simp: r1_def dest: mset_eq_setD)
  let ?p = "priority (ag (h t))"
  have facts: "fst r3 t = ag (h t)
      \<and> (t \<in> set (L1 s) \<longrightarrow> t \<in> set (fst (snd r2)) \<and> t \<notin> set (fst (snd r3))
            \<and> t \<notin> set (snd (snd r3)))
      \<and> (t \<in> set (L2 s) \<longrightarrow> (t \<in> set (fst (snd r2))) = (100 \<le> ?p)
            \<and> (t \<in> set (fst (snd r3))) = (?p < 100) \<and> t \<notin> set (snd (snd r3)))
      \<and> (t \<in> set (L3 s) \<longrightarrow> t \<notin> set (fst (snd r2))
            \<and> (t \<in> set (fst (snd r3))) = (50 \<le> ?p)
            \<and> (t \<in> set (snd (snd r3))) = (?p < 50))"
    using once_in_tiers [OF assms]
  proof (elim disjE conjE)
    assume a: "count_list (L1 s) t = 1" "t \<notin> set (L2 s)" "t \<notin> set (L3 s)"
    then have in1: "t \<in> set (L1 s)" by (metis count_list_0_iff zero_neq_one)
    have "fst r1 t = ag (h t)" by (simp add: r1_def drainL1_once [OF a(1)])
    moreover note drainL2_absent [OF a(2), of ag "fst r1" "snd r1" "[]", folded r2_def]
      drainL3_absent [OF a(3), of ag "fst r2" "snd (snd r2)" "[]", folded r3_def]
    ultimately show ?thesis using a in1 by (simp add: n1)
  next
    assume a: "t \<notin> set (L1 s)" "count_list (L2 s) t = 1" "t \<notin> set (L3 s)"
    then have in2: "t \<in> set (L2 s)" by (metis count_list_0_iff zero_neq_one)
    have "fst r1 t = h t" by (simp add: r1_def drainL1_absent [OF a(1)])
    moreover note drainL2_once [OF a(2), of ag "fst r1" "snd r1" "[]", folded r2_def]
      drainL3_absent [OF a(3), of ag "fst r2" "snd (snd r2)" "[]", folded r3_def]
    ultimately show ?thesis using a in2 by (simp add: n1)
  next
    assume a: "t \<notin> set (L1 s)" "t \<notin> set (L2 s)" "count_list (L3 s) t = 1"
    then have in3: "t \<in> set (L3 s)" by (metis count_list_0_iff zero_neq_one)
    have "fst r1 t = h t" by (simp add: r1_def drainL1_absent [OF a(1)])
    moreover note drainL2_absent [OF a(2), of ag "fst r1" "snd r1" "[]", folded r2_def]
      drainL3_once [OF a(3), of ag "fst r2" "snd (snd r2)" "[]", folded r3_def]
    ultimately show ?thesis using a in3 by (simp add: n1)
  qed
  then have aged: "threads (aging ag s) t = ag (threads s t)" by (simp add: l h_def)
  from facts show ?thesis
    unfolding aged unfolding l h_def [symmetric] by auto
qed

text \<open>
  Instance of C2, aging by 10: thread 1 stays in \<open>L1\<close>, thread 4 (95 to 105) is promoted
  to \<open>L1\<close>, thread 5 (60 to 70) stays in \<open>L2\<close>, thread 6 (48 to 58) is promoted to \<open>L2\<close>,
  thread 7 (10 to 20) stays in \<open>L3\<close>.
\<close>

theorem aging_promotion_witness:
  "count_list (L1 age_state @ L2 age_state @ L3 age_state) 1 = 1 \<and>
   1 \<in> set (L1 age_state) \<and> 1 \<in> set (L1 (aging (raise_by 10) age_state)) \<and>
   count_list (L1 age_state @ L2 age_state @ L3 age_state) 4 = 1 \<and>
   4 \<in> set (L2 age_state) \<and> priority (threads (aging (raise_by 10) age_state) 4) = 105 \<and>
   4 \<in> set (L1 (aging (raise_by 10) age_state)) \<and>
   count_list (L1 age_state @ L2 age_state @ L3 age_state) 5 = 1 \<and>
   5 \<in> set (L2 age_state) \<and> priority (threads (aging (raise_by 10) age_state) 5) = 70 \<and>
   5 \<in> set (L2 (aging (raise_by 10) age_state)) \<and>
   count_list (L1 age_state @ L2 age_state @ L3 age_state) 6 = 1 \<and>
   6 \<in> set (L3 age_state) \<and> priority (threads (aging (raise_by 10) age_state) 6) = 58 \<and>
   6 \<in> set (L2 (aging (raise_by 10) age_state)) \<and>
   count_list (L1 age_state @ L2 age_state @ L3 age_state) 7 = 1 \<and>
   7 \<in> set (L3 age_state) \<and> priority (threads (aging (raise_by 10) age_state) 7) = 20 \<and>
   7 \<in> set (L3 (aging (raise_by 10) age_state))"
proof -
  have c: "count_list (L1 age_state @ L2 age_state @ L3 age_state) 1 = 1"
    "count_list (L1 age_state @ L2 age_state @ L3 age_state) 4 = 1"
    "count_list (L1 age_state @ L2 age_state @ L3 age_state) 5 = 1"
    "count_list (L1 age_state @ L2 age_state @ L3 age_state) 6 = 1"
    "count_list (L1 age_state @ L2 age_state @ L3 age_state) 7 = 1"
    by (simp_all add: age_state_def Scheduler_def)
  have m: "1 \<in> set (L1 age_state)" "4 \<in> set (L2 age_state)" "5 \<in> set (L2 age_state)"
    "6 \<in> set (L3 age_state)" "7 \<in> set (L3 age_state)"
    by (simp_all add: age_state_def Scheduler_def)
  have p: "priority (raise_by 10 (threads age_state 4)) = 105"
    "priority (raise_by 10 (threads age_state 5)) = 70"
    "priority (raise_by 10 (threads age_state 6)) = 58"
    "priority (raise_by 10 (threads age_state 7)) = 20"
    by (simp_all add: age_state_def Scheduler_def age_heap_def raise_by_def)
  show ?thesis
    using aging_promotion [OF c(1), of "raise_by 10"] aging_promotion [OF c(2), of "raise_by 10"]
      aging_promotion [OF c(3), of "raise_by 10"] aging_promotion [OF c(4), of "raise_by 10"]
      aging_promotion [OF c(5), of "raise_by 10"] c m p
    by simp
qed

text \<open>
  C9. An aging pass keeps the units: the three new lists together hold the same threads,
  each as often as before, so their total length is the same; every thread of \<open>L1\<close> is in
  the new \<open>L1\<close>, every thread of \<open>L2\<close> in the new \<open>L1\<close> or \<open>L2\<close>; the new \<open>L3\<close> holds only
  threads of \<open>L3\<close> and the new \<open>L2\<close> only threads of \<open>L2\<close> and \<open>L3\<close>; and when no thread
  was in two places before the pass, none is after it.
\<close>

theorem aging_preserves_units:
  "mset (L1 (aging ag s)) + mset (L2 (aging ag s)) + mset (L3 (aging ag s))
     = mset (L1 s) + mset (L2 s) + mset (L3 s)
 \<and> length (L1 (aging ag s)) + length (L2 (aging ag s)) + length (L3 (aging ag s))
     = length (L1 s) + length (L2 s) + length (L3 s)
 \<and> set (L1 s) \<subseteq> set (L1 (aging ag s))
 \<and> set (L2 s) \<subseteq> set (L1 (aging ag s)) \<union> set (L2 (aging ag s))
 \<and> set (L3 (aging ag s)) \<subseteq> set (L3 s)
 \<and> set (L2 (aging ag s)) \<subseteq> set (L2 s) \<union> set (L3 s)
 \<and> (distinct (L1 s @ L2 s @ L3 s) \<longrightarrow>
      distinct (L1 (aging ag s) @ L2 (aging ag s) @ L3 (aging ag s)))"
proof -
  define r1 where "r1 = drainL1 ag (L1 s) (threads s) []"
  define r2 where "r2 = drainL2 ag (L2 s) (fst r1) (snd r1) []"
  define r3 where "r3 = drainL3 ag (L3 s) (fst r2) (snd (snd r2)) []"
  have l: "L1 (aging ag s) = fst (snd r2)" "L2 (aging ag s) = fst (snd r3)"
    "L3 (aging ag s) = snd (snd r3)"
    by (simp_all add: aging_lists r1_def r2_def r3_def)
  have m1: "mset (snd r1) = mset (L1 s)"
    by (simp add: r1_def drainL1_mset)
  have m2: "mset (fst (snd r2)) + mset (snd (snd r2)) = mset (L2 s) + mset (L1 s)"
    using drainL2_mset [of ag "L2 s" "fst r1" "snd r1" "[]"] by (simp add: r2_def m1)
  have m3: "mset (fst (snd r3)) + mset (snd (snd r3)) = mset (L3 s) + mset (snd (snd r2))"
    using drainL3_mset [of ag "L3 s" "fst r2" "snd (snd r2)" "[]"] by (simp add: r3_def)
  have total: "mset (L1 (aging ag s)) + mset (L2 (aging ag s)) + mset (L3 (aging ag s))
     = mset (L1 s) + mset (L2 s) + mset (L3 s)"
    using m2 m3 by (simp add: l ac_simps)
  then have "size (mset (L1 (aging ag s)) + mset (L2 (aging ag s)) + mset (L3 (aging ag s)))
     = size (mset (L1 s) + mset (L2 s) + mset (L3 s))" by simp
  then have count: "length (L1 (aging ag s)) + length (L2 (aging ag s)) + length (L3 (aging ag s))
     = length (L1 s) + length (L2 s) + length (L3 s)" by simp
  have s1: "set (snd r1) = set (L1 s)" using m1 by (rule mset_eq_setD)
  have keep1: "set (L1 s) \<subseteq> set (L1 (aging ag s))"
    using drainL2_keeps_newL1 [of _ "snd r1" ag "L2 s" "fst r1" "[]"]
    by (auto simp: l r2_def s1)
  have "set (L2 s) \<subseteq> set (fst (snd r2)) \<union> set (snd (snd r2))"
    using arg_cong [OF m2, of set_mset] by auto
  moreover have "set (snd (snd r2)) \<subseteq> set (fst (snd r3))"
    using drainL3_keeps_newL2 [of _ "snd (snd r2)" ag "L3 s" "fst r2" "[]"]
    by (auto simp: r3_def)
  ultimately have keep2: "set (L2 s) \<subseteq> set (L1 (aging ag s)) \<union> set (L2 (aging ag s))"
    by (auto simp: l)
  have only3: "set (L3 (aging ag s)) \<subseteq> set (L3 s)"
    using drainL3_newL3_origin [of _ ag "L3 s" "fst r2" "snd (snd r2)" "[]"]
    by (auto simp: l r3_def)
  have "set (snd (snd r2)) \<subseteq> set (L2 s)"
    using drainL2_newL2_origin [of _ ag "L2 s" "fst r1" "snd r1" "[]"]
    by (auto simp: r2_def)
  moreover have "set (fst (snd r3)) \<subseteq> set (L3 s) \<union> set (snd (snd r2))"
    using drainL3_newL2_origin [of _ ag "L3 s" "fst r2" "snd (snd r2)" "[]"]
    by (auto simp: r3_def)
  ultimately have only23: "set (L2 (aging ag s)) \<subseteq> set (L2 s) \<union> set (L3 s)"
    by (auto simp: l)
  have "mset (L1 (aging ag s) @ L2 (aging ag s) @ L3 (aging ag s)) = mset (L1 s @ L2 s @ L3 s)"
    using total by (simp add: ac_simps)
  then have dist: "distinct (L1 (aging ag s) @ L2 (aging ag s) @ L3 (aging ag s))
      = distinct (L1 s @ L2 s @ L3 s)"
    by (rule mset_eq_imp_distinct_iff)
  from total count keep1 keep2 only3 only23 dist show ?thesis by blast
qed

text \<open>Instance of C9: the five threads of \<open>age_state\<close>, aged by 10.\<close>

theorem aging_preserves_units_witness:
  "distinct (L1 age_state @ L2 age_state @ L3 age_state) \<and>
   distinct (L1 (aging (raise_by 10) age_state) @ L2 (aging (raise_by 10) age_state)
             @ L3 (aging (raise_by 10) age_state)) \<and>
   length (L1 (aging (raise_by 10) age_state)) + length (L2 (aging (raise_by 10) age_state))
     + length (L3 (aging (raise_by 10) age_state)) = 5"
  using aging_preserves_units [of "raise_by 10" age_state]
  by (simp add: age_state_aged) (simp add: age_state_def Scheduler_def)

end
